theory Spec2Isabelle
  imports Main
begin

section \<open>DeadSocketDropper: the connection monitor of main.go\<close>

text \<open>
  The program polls \<^verbatim>\<open>ss -tnpeH src :PORT\<close>, keeps a table of the sockets it has seen
  (keyed by inode), kills the sockets that stay active for too long and forgets the ones
  that have not been seen for a while. This theory embeds \<^verbatim>\<open>listCurrentConnections\<close>,
  \<^verbatim>\<open>killConnection\<close> and \<^verbatim>\<open>monitorConnections\<close>, together with the three library
  functions they rely on (\<^verbatim>\<open>strings.Fields\<close>, \<^verbatim>\<open>strings.Split\<close> and the match of the
  regular expression \<^verbatim>\<open>ino:([0-9]+)\<close>).

  Strings are Go strings: lists of bytes.
\<close>

subsection \<open>Library functions on strings\<close>

text \<open>
  \<^verbatim>\<open>strings.Fields\<close> splits a string around runs of white space and returns the
  non-empty pieces. White space is \<^verbatim>\<open>unicode.IsSpace\<close>: the six ASCII characters below,
  and the runes U+0085, U+00A0, U+1680, U+2000 to U+200A, U+2028, U+2029, U+202F, U+205F
  and U+3000, given here by their UTF-8 encodings. Each of these encodings starts with a
  lead byte and lead bytes never occur inside another well-formed encoding, while a
  malformed byte is a rune of width one, so looking for the encodings in the byte
  sequence finds exactly the white space runes that Go decodes.
\<close>

definition asciiSpace :: "char \<Rightarrow> bool" where
  "asciiSpace c = (c \<in> set [CHR 0x09, CHR 0x0A, CHR 0x0B, CHR 0x0C, CHR 0x0D, CHR 0x20])"

definition unicodeSpaces :: "string list" where
  "unicodeSpaces =
     [[CHR 0xC2, CHR 0x85], [CHR 0xC2, CHR 0xA0], [CHR 0xE1, CHR 0x9A, CHR 0x80],
      [CHR 0xE2, CHR 0x80, CHR 0x80], [CHR 0xE2, CHR 0x80, CHR 0x81],
      [CHR 0xE2, CHR 0x80, CHR 0x82], [CHR 0xE2, CHR 0x80, CHR 0x83],
      [CHR 0xE2, CHR 0x80, CHR 0x84], [CHR 0xE2, CHR 0x80, CHR 0x85],
      [CHR 0xE2, CHR 0x80, CHR 0x86], [CHR 0xE2, CHR 0x80, CHR 0x87],
      [CHR 0xE2, CHR 0x80, CHR 0x88], [CHR 0xE2, CHR 0x80, CHR 0x89],
      [CHR 0xE2, CHR 0x80, CHR 0x8A], [CHR 0xE2, CHR 0x80, CHR 0xA8],
      [CHR 0xE2, CHR 0x80, CHR 0xA9], [CHR 0xE2, CHR 0x80, CHR 0xAF],
      [CHR 0xE2, CHR 0x81, CHR 0x9F], [CHR 0xE3, CHR 0x80, CHR 0x80]]"

text \<open>The width in bytes of the white space rune at the head of the string, 0 if there is none.\<close>

definition spaceWidth :: "string \<Rightarrow> nat" where
  "spaceWidth s =
     (case s of
        [] \<Rightarrow> 0
      | c # cs \<Rightarrow>
          if asciiSpace c then 1
          else (case find (\<lambda>p. take (length p) s = p) unicodeSpaces of
                  Some p \<Rightarrow> length p
                | None \<Rightarrow> 0))"

definition flush :: "string \<Rightarrow> string list" where
  "flush cur = (if cur = [] then [] else [cur])"

text \<open>
  The scan of \<^verbatim>\<open>Fields\<close>: \<open>cur\<close> is the field being read and \<open>skip\<close> the number of
  bytes of the current white space rune that are still to be passed.
\<close>

fun fieldsFrom :: "string \<Rightarrow> nat \<Rightarrow> string \<Rightarrow> string list" where
  "fieldsFrom cur skip [] = flush cur"
| "fieldsFrom cur (Suc n) (c # cs) = fieldsFrom cur n cs"
| "fieldsFrom cur 0 (c # cs) =
     (let w = spaceWidth (c # cs) in
      if 0 < w then flush cur @ fieldsFrom [] (w - 1) cs
      else fieldsFrom (cur @ [c]) 0 cs)"

definition Fields :: "string \<Rightarrow> string list" where
  "Fields s = fieldsFrom [] 0 s"

text \<open>
  \<^verbatim>\<open>inodeRegex.FindStringSubmatch(line)\<close> for \<^verbatim>\<open>ino:([0-9]+)\<close>: the leftmost match, the
  digits taken greedily; the result is the whole match followed by the group, or the
  empty slice (nil) when nothing matches.
\<close>

definition isDigit :: "char \<Rightarrow> bool" where
  "isDigit c = (c \<in> set ''0123456789'')"

definition matchHere :: "string \<Rightarrow> string list" where
  "matchHere s =
     (let ds = takeWhile isDigit (drop 4 s) in
      if take 4 s = ''ino:'' \<and> ds \<noteq> [] then [''ino:'' @ ds, ds] else [])"

fun FindStringSubmatch :: "string \<Rightarrow> string list" where
  "FindStringSubmatch [] = []"
| "FindStringSubmatch (c # cs) =
     (if matchHere (c # cs) \<noteq> [] then matchHere (c # cs) else FindStringSubmatch cs)"

text \<open>\<^verbatim>\<open>strings.Index\<close>: the position of the first occurrence, \<open>None\<close> for Go's -1.\<close>

fun Index :: "string \<Rightarrow> string \<Rightarrow> nat option" where
  "Index [] sep = (if sep = [] then Some 0 else None)"
| "Index (c # cs) sep =
     (if take (length sep) (c # cs) = sep then Some 0 else map_option Suc (Index cs sep))"

text \<open>
  \<^verbatim>\<open>strings.Split(s, sep)\<close>: cut at every occurrence of \<open>sep\<close>, found from the left,
  without overlap. (With an empty separator Go returns the runes of \<open>s\<close> one by one, here
  its bytes; the program only splits at \<^verbatim>\<open>" -> "\<close>.)
\<close>

function Split :: "string \<Rightarrow> string \<Rightarrow> string list" where
  "Split s sep =
     (if sep = [] then map (\<lambda>c. [c]) s
      else (case Index s sep of
              None \<Rightarrow> [s]
            | Some m \<Rightarrow> take m s # Split (drop (m + length sep) s) sep))"
  by pat_completeness auto
termination
proof (relation "measure (\<lambda>(s, sep). length s)")
  show "wf (measure (\<lambda>(s, sep). length s))" by simp
next
  fix s sep :: string and m
  assume sep: "sep \<noteq> []" and found: "Index s sep = Some m"
  have fits: "length p \<le> length u" if "take (length p) u = p" for p u :: string
  proof -
    from that have "length (take (length p) u) = length p" by simp
    then show ?thesis by simp
  qed
  have bound: "Index u sep = Some n \<Longrightarrow> n + length sep \<le> length u" for u n
  proof (induction u arbitrary: n)
    case Nil
    then show ?case by (simp split: if_splits)
  next
    case (Cons c cs)
    show ?case
    proof (cases "take (length sep) (c # cs) = sep")
      case True
      then have "length sep \<le> length (c # cs)"
        by (rule fits)
      with True Cons.prems show ?thesis by simp
    next
      case False
      with Cons.prems obtain n' where "Index cs sep = Some n'" "n = Suc n'"
        by auto
      with Cons.IH show ?thesis by fastforce
    qed
  qed
  from found have le: "m + length sep \<le> length s"
    by (rule bound)
  from sep obtain c cs where "sep = c # cs"
    by (cases sep) auto
  with le have "length s - (m + length sep) < length s"
    by simp
  then show "((drop (m + length sep) s, sep), (s, sep)) \<in> measure (\<lambda>(s, sep). length s)"
    by simp
qed

declare Split.simps [simp del]

subsection \<open>Time\<close>

text \<open>
  Every \<^verbatim>\<open>time.Time\<close> of the program comes from \<^verbatim>\<open>time.Now()\<close> and so carries a
  monotonic clock reading, which is what \<^verbatim>\<open>Sub\<close> uses: a time is that reading in
  nanoseconds. A \<^verbatim>\<open>time.Duration\<close> is a 64-bit signed count of nanoseconds; \<^verbatim>\<open>Sub\<close>
  saturates, the multiplication by \<^verbatim>\<open>time.Minute\<close> wraps around.
\<close>

type_synonym time = int

definition Minute :: int where
  "Minute = 60000000000"

definition minDuration :: int where
  "minDuration = - (2 ^ 63)"

definition maxDuration :: int where
  "maxDuration = 2 ^ 63 - 1"

definition wrap64 :: "int \<Rightarrow> int" where
  "wrap64 x = (x + 2 ^ 63) mod 2 ^ 64 - 2 ^ 63"

definition Sub :: "time \<Rightarrow> time \<Rightarrow> int" where
  "Sub t u =
     (let d = t - u in
      if d < minDuration then minDuration else if maxDuration < d then maxDuration else d)"

subsection \<open>Data\<close>

record ConnectionInfo =
  Inode :: string
  TimeAdded :: time
  LastSeen :: time
  IsActive :: bool
  ConnectionID :: string

text \<open>
  The global \<^verbatim>\<open>connections\<close>. Its values are pointers, each to an object of its own: a
  record enters the table at most once, at the moment it is created by the parser. The
  table is therefore a map to the records themselves.
\<close>

type_synonym table = "string \<rightharpoonup> ConnectionInfo"

record config =
  sourcePort :: string
  checkIntervalMin :: int
  maxActiveDurMin :: int
  maxInactiveDurMin :: int

text \<open>
  What the program meets in one cycle and does not decide itself. The output of \<^verbatim>\<open>ss\<close>
  is the list of the lines that \<^verbatim>\<open>scanner.Scan()\<close> delivers to the loop of line 171, in
  their order (the scan ends at the end of the output, or before a line that does not fit
  the scanner's buffer).
\<close>

datatype ss_run = StdoutPipeFails | StartFails | Lines "string list"

record cycle_env =
  ss_list :: ss_run
    \<comment> \<open>the run of \<^verbatim>\<open>ss -tnpeH\<close>: a failure, or the lines the scanner delivers\<close>
  clock :: time
    \<comment> \<open>\<^verbatim>\<open>time.Now()\<close> of line 119\<close>
  range_order :: "string list"
    \<comment> \<open>the order in which \<^verbatim>\<open>range connections\<close> of line 133 yields the keys\<close>
  ss_kill :: "string \<Rightarrow> string \<Rightarrow> bool"
    \<comment> \<open>whether \<^verbatim>\<open>ss --kill dst PEER src LOCAL\<close> exits with success\<close>

datatype list_error = StdoutPipeError | StartError

datatype kill_error = NotFound | InvalidFormat | CommandFailed

text \<open>The calls of \<^verbatim>\<open>killConnection\<close> made in a cycle, each with the error it returned.\<close>

type_synonym kill_trace = "(string \<times> kill_error option) list"

subsection \<open>listCurrentConnections\<close>

text \<open>
  The loop over the scanned lines; \<open>acc\<close> is \<^verbatim>\<open>currentConnections\<close>. A record leaves the
  parser with zero times, which the reconciler overwrites when it stores the record.
\<close>

fun scanLines :: "string list \<Rightarrow> ConnectionInfo list \<Rightarrow> ConnectionInfo list" where
  "scanLines [] acc = acc"
| "scanLines (line # rest) acc =
     (let fields = Fields line;
          matches = FindStringSubmatch line
      in if length matches < 2 then scanLines rest acc
         else
           let inode = matches ! 1
           in if 5 \<le> length fields then
                let localAddr = fields ! 3;
                    peerAddr = fields ! 4;
                    connID = localAddr @ '' -> '' @ peerAddr
                in scanLines rest
                     (acc @ [\<lparr>Inode = inode, TimeAdded = 0, LastSeen = 0,
                              IsActive = True, ConnectionID = connID\<rparr>])
              else scanLines rest acc)"

definition listCurrentConnections :: "ss_run \<Rightarrow> list_error + ConnectionInfo list" where
  "listCurrentConnections run =
     (case run of
        StdoutPipeFails \<Rightarrow> Inl StdoutPipeError
      | StartFails \<Rightarrow> Inl StartError
      | Lines ls \<Rightarrow> Inr (scanLines ls []))"

subsection \<open>killConnection\<close>

definition killConnection ::
  "(string \<Rightarrow> string \<Rightarrow> bool) \<Rightarrow> table \<Rightarrow> string \<Rightarrow> kill_error option" where
  "killConnection run_kill connections inode =
     (case connections inode of
        None \<Rightarrow> Some NotFound
      | Some connInfo \<Rightarrow>
          (let parts = Split (ConnectionID connInfo) '' -> ''
           in if length parts \<noteq> 2 then Some InvalidFormat
              else
                let localAddr = parts ! 0;
                    peerAddr = parts ! 1
                in if run_kill peerAddr localAddr then None else Some CommandFailed))"

subsection \<open>monitorConnections\<close>

text \<open>Lines 115 to 117: every entry is marked inactive; the entries do not interact.\<close>

definition markAllInactive :: "table \<Rightarrow> table" where
  "markAllInactive connections =
     (\<lambda>inode. map_option (\<lambda>conn. conn\<lparr>IsActive := False\<rparr>) (connections inode))"

text \<open>
  Lines 120 to 130: the snapshot is merged into the table, record by record. Line 125
  stores the pointer to the new record and lines 126 and 127 write through it, so the
  entry of the table has both times set to \<open>now\<close>.
\<close>

fun mergeSnapshot :: "time \<Rightarrow> ConnectionInfo list \<Rightarrow> table \<Rightarrow> table" where
  "mergeSnapshot now [] connections = connections"
| "mergeSnapshot now (currentConn # rest) connections =
     (case connections (Inode currentConn) of
        Some connInfo \<Rightarrow>
          mergeSnapshot now rest
            (connections(Inode currentConn \<mapsto> connInfo\<lparr>LastSeen := now, IsActive := True\<rparr>))
      | None \<Rightarrow>
          mergeSnapshot now rest
            (connections(Inode currentConn \<mapsto> currentConn\<lparr>TimeAdded := now, LastSeen := now\<rparr>)))"

definition killRule :: "config \<Rightarrow> time \<Rightarrow> ConnectionInfo \<Rightarrow> bool" where
  "killRule cfg now conn =
     (let maxActiveDuration = wrap64 (maxActiveDurMin cfg * Minute)
      in maxActiveDuration < Sub now (TimeAdded conn) \<and> IsActive conn)"

definition expiryRule :: "config \<Rightarrow> time \<Rightarrow> ConnectionInfo \<Rightarrow> bool" where
  "expiryRule cfg now conn =
     (let maxInactiveDuration = wrap64 (maxInactiveDurMin cfg * Minute)
      in maxInactiveDuration < Sub now (LastSeen conn))"

text \<open>
  Lines 133 to 150: the loop over the table, in the order the runtime yields the keys. A
  key whose entry is gone when its turn comes is not produced.
\<close>

fun processEntries ::
  "config \<Rightarrow> (string \<Rightarrow> string \<Rightarrow> bool) \<Rightarrow> time \<Rightarrow> string list \<Rightarrow> table \<times> kill_trace
     \<Rightarrow> table \<times> kill_trace" where
  "processEntries cfg run_kill now [] (connections, trace) = (connections, trace)"
| "processEntries cfg run_kill now (inode # rest) (connections, trace) =
     (case connections inode of
        None \<Rightarrow> processEntries cfg run_kill now rest (connections, trace)
      | Some conn \<Rightarrow>
          if killRule cfg now conn then
            processEntries cfg run_kill now rest
              (connections(inode := None),
               trace @ [(inode, killConnection run_kill connections inode)])
          else if expiryRule cfg now conn then
            processEntries cfg run_kill now rest (connections(inode := None), trace)
          else processEntries cfg run_kill now rest (connections, trace))"

text \<open>Lines 115 to 150: what a cycle does once the snapshot has been read.\<close>

definition reconcile ::
  "config \<Rightarrow> (string \<Rightarrow> string \<Rightarrow> bool) \<Rightarrow> time \<Rightarrow> string list \<Rightarrow> ConnectionInfo list \<Rightarrow> table
     \<Rightarrow> table \<times> kill_trace" where
  "reconcile cfg run_kill now order currentConnsList connections =
     (let merged = mergeSnapshot now currentConnsList (markAllInactive connections)
      in processEntries cfg run_kill now order (merged, []))"

definition monitorConnections :: "config \<Rightarrow> cycle_env \<Rightarrow> table \<Rightarrow> table \<times> kill_trace" where
  "monitorConnections cfg env connections =
     (case listCurrentConnections (ss_list env) of
        Inl err \<Rightarrow> (connections, [])
      | Inr currentConnsList \<Rightarrow>
          reconcile cfg (ss_kill env) (clock env) (range_order env) currentConnsList
            connections)"

subsection \<open>The tables the program can hold\<close>

text \<open>
  The program starts with an empty table and runs one cycle after the other; the
  monotonic clock never goes back. \<open>reachable cfg t connections\<close>: the table can be
  \<open>connections\<close> at a moment when the last clock reading was \<open>t\<close>.
\<close>

inductive reachable :: "config \<Rightarrow> time \<Rightarrow> table \<Rightarrow> bool" for cfg :: config where
  start: "reachable cfg t Map.empty"
| cycle: "reachable cfg t connections \<Longrightarrow> t \<le> clock env \<Longrightarrow>
          reachable cfg (clock env) (fst (monitorConnections cfg env connections))"

text \<open>
  A connection ID as line 187 builds it: two parts without blank, joined by
  \<^verbatim>\<open>" -> "\<close>.
\<close>

definition arrowed :: "ConnectionInfo \<Rightarrow> bool" where
  "arrowed conn =
     (\<exists>localAddr peerAddr. ConnectionID conn = localAddr @ '' -> '' @ peerAddr \<and>
        CHR '' '' \<notin> set localAddr \<and> CHR '' '' \<notin> set peerAddr)"

subsection \<open>Sample data\<close>

text \<open>Lines as \<^verbatim>\<open>ss -tnpeH\<close> prints them, a line without inode and a line cut short.\<close>

definition lineA :: string where
  "lineA = ''ESTAB 0 0 10.0.0.5:50090 10.0.0.9:41234 uid:33 ino:48213 sk:1a''"

definition lineB :: string where
  "lineB = ''ESTAB 0 0 10.0.0.5:50090 10.0.0.7:38002 uid:33 ino:48377 sk:1b''"

definition lineNoInode :: string where
  "lineNoInode = ''ESTAB 0 0 10.0.0.5:50090 10.0.0.8:40112 uid:33 sk:1c''"

definition lineShort :: string where
  "lineShort = ''ESTAB 10.0.0.5:50090 ino:48500''"

definition lineDup :: string where
  "lineDup = ''ESTAB 0 0 10.0.0.5:50090 10.0.0.9:5555 uid:33 ino:48213 sk:1d''"

definition killSucceeds :: "string \<Rightarrow> string \<Rightarrow> bool" where
  "killSucceeds peerAddr localAddr = True"

definition killFails :: "string \<Rightarrow> string \<Rightarrow> bool" where
  "killFails peerAddr localAddr = False"

definition defaults :: config where
  "defaults = \<lparr>sourcePort = ''50090'', checkIntervalMin = 30, maxActiveDurMin = 120,
                maxInactiveDurMin = 60\<rparr>"

definition entryA :: ConnectionInfo where
  "entryA = \<lparr>Inode = ''48213'', TimeAdded = 0, LastSeen = 0, IsActive = True,
              ConnectionID = ''10.0.0.5:50090 -> 10.0.0.9:41234''\<rparr>"

definition envAt :: "int \<Rightarrow> string list \<Rightarrow> string list \<Rightarrow> cycle_env" where
  "envAt minutes ls order =
     \<lparr>ss_list = Lines ls, clock = minutes * Minute, range_order = order, ss_kill = killSucceeds\<rparr>"

definition tableA :: table where
  "tableA = [''48213'' \<mapsto> entryA]"

definition envFirst :: cycle_env where
  "envFirst = envAt 0 [lineA] [''48213'']"

definition envKill :: cycle_env where
  "envKill = envAt 121 [lineA] [''48213'']"

definition envNext :: cycle_env where
  "envNext = envAt 30 [lineB] [''48213'', ''48377'']"

definition envDup :: cycle_env where
  "envDup = envAt 0 [lineA, lineDup] [''48213'']"

definition recAbc :: ConnectionInfo where
  "recAbc = \<lparr>Inode = ''abc'', TimeAdded = 0, LastSeen = 0, IsActive = True,
             ConnectionID = ''10.0.0.5:50090 -> 10.0.0.9:41234''\<rparr>"

definition recXyz :: ConnectionInfo where
  "recXyz = \<lparr>Inode = ''xyz'', TimeAdded = 0, LastSeen = 0, IsActive = True,
             ConnectionID = ''10.0.0.5:50090 -> 10.0.0.7:38002''\<rparr>"

definition run0 :: "table \<times> kill_trace" where
  "run0 = reconcile defaults killSucceeds 0 [''abc'', ''xyz''] [recAbc, recXyz] Map.empty"

definition run30 :: "table \<times> kill_trace" where
  "run30 = reconcile defaults killSucceeds (30 * Minute) [''abc'', ''xyz''] [recAbc] (fst run0)"

definition run60 :: "table \<times> kill_trace" where
  "run60 = reconcile defaults killSucceeds (60 * Minute) [''abc'', ''xyz''] [recAbc] (fst run30)"

definition run90 :: "table \<times> kill_trace" where
  "run90 = reconcile defaults killSucceeds (90 * Minute) [''abc'', ''xyz''] [recAbc] (fst run60)"

definition run120 :: "table \<times> kill_trace" where
  "run120 = reconcile defaults killSucceeds (120 * Minute) [''abc''] [recAbc] (fst run90)"

definition run150 :: "table \<times> kill_trace" where
  "run150 = reconcile defaults killSucceeds (150 * Minute) [''abc''] [recAbc] (fst run120)"

section \<open>Lemmas\<close>

subsection \<open>Strings\<close>

lemma spaceWidth_blank: "spaceWidth (c # cs) = 0 \<Longrightarrow> c \<noteq> CHR '' ''"
  by (auto simp: spaceWidth_def asciiSpace_def split: if_splits)

lemma fieldsFrom_no_blank:
  "CHR '' '' \<notin> set cur \<Longrightarrow> f \<in> set (fieldsFrom cur skip s) \<Longrightarrow> CHR '' '' \<notin> set f"
proof (induction cur skip s rule: fieldsFrom.induct)
  case (1 cur skip)
  then show ?case by (simp add: flush_def split: if_splits)
next
  case (2 cur n c cs)
  then show ?case by simp
next
  case (3 cur c cs)
  show ?case
  proof (cases "0 < spaceWidth (c # cs)")
    case True
    with "3.prems" have "f \<in> set (flush cur) \<or> f \<in> set (fieldsFrom [] (spaceWidth (c # cs) - 1) cs)"
      by (simp add: Let_def)
    then show ?thesis
    proof
      assume "f \<in> set (flush cur)"
      with "3.prems"(1) show ?thesis by (simp add: flush_def split: if_splits)
    next
      assume "f \<in> set (fieldsFrom [] (spaceWidth (c # cs) - 1) cs)"
      with "3.IH"(1) [OF refl True] show ?thesis by simp
    qed
  next
    case False
    then have "c \<noteq> CHR '' ''" using spaceWidth_blank by simp
    with "3.prems"(1) have "CHR '' '' \<notin> set (cur @ [c])" by simp
    moreover from False "3.prems"(2) have "f \<in> set (fieldsFrom (cur @ [c]) 0 cs)"
      by (simp add: Let_def)
    ultimately show ?thesis using "3.IH"(2) [OF refl False] by simp
  qed
qed

lemma Fields_no_blank: "f \<in> set (Fields s) \<Longrightarrow> CHR '' '' \<notin> set f"
  unfolding Fields_def by (rule fieldsFrom_no_blank [of "[]"]) simp_all

lemma Index_no_blank: "CHR '' '' \<notin> set s \<Longrightarrow> Index s '' -> '' = None"
  by (induction s) auto

lemma Index_arrow:
  "CHR '' '' \<notin> set l \<Longrightarrow> Index (l @ '' -> '' @ p) '' -> '' = Some (length l)"
  by (induction l) auto

lemma Split_arrow:
  assumes "CHR '' '' \<notin> set l" and "CHR '' '' \<notin> set p"
  shows "Split (l @ '' -> '' @ p) '' -> '' = [l, p]"
proof -
  have tail: "Split p '' -> '' = [p]"
    using Index_no_blank [OF assms(2)] by (subst Split.simps) simp
  have idx: "Index (l @ '' -> '' @ p) '' -> '' = Some (length l)"
    using assms(1) by (rule Index_arrow)
  show ?thesis
    using idx tail by (subst Split.simps) simp
qed

lemma arrowed_update:
  "arrowed (conn\<lparr>IsActive := b\<rparr>) = arrowed conn"
  "arrowed (conn\<lparr>LastSeen := t\<rparr>) = arrowed conn"
  "arrowed (conn\<lparr>TimeAdded := t\<rparr>) = arrowed conn"
  by (simp_all add: arrowed_def)

lemma killConnection_arrowed:
  assumes "connections inode = Some conn" and "arrowed conn"
  shows "killConnection run_kill connections inode = None \<or>
         killConnection run_kill connections inode = Some CommandFailed"
proof -
  from assms(2) obtain l p where id: "ConnectionID conn = l @ '' -> '' @ p"
    and l: "CHR '' '' \<notin> set l" and p: "CHR '' '' \<notin> set p"
    unfolding arrowed_def by blast
  have "Split (l @ '' -> '' @ p) '' -> '' = [l, p]"
    using l p by (rule Split_arrow)
  then have "Split (ConnectionID conn) '' -> '' = [l, p]"
    by (simp only: id)
  with assms(1) show ?thesis
    by (simp add: killConnection_def)
qed

subsection \<open>The parser\<close>

lemma scanLines_append: "scanLines (xs @ ys) acc = scanLines ys (scanLines xs acc)"
  by (induction xs arbitrary: acc) (simp_all add: Let_def)

lemma scanLines_skip:
  "length (FindStringSubmatch line) < 2 \<or> length (Fields line) < 5 \<Longrightarrow>
   scanLines (line # rest) acc = scanLines rest acc"
  by (auto simp: Let_def)

lemma scanLines_arrowed:
  "\<forall>c \<in> set acc. arrowed c \<Longrightarrow> \<forall>c \<in> set (scanLines ls acc). arrowed c"
proof (induction ls arbitrary: acc)
  case Nil
  then show ?case by simp
next
  case (Cons line ls)
  have new: "\<forall>c \<in> set (acc @ [\<lparr>Inode = i, TimeAdded = 0, LastSeen = 0, IsActive = True,
               ConnectionID = Fields line ! 3 @ '' -> '' @ Fields line ! 4\<rparr>]). arrowed c"
    if "5 \<le> length (Fields line)" for i
  proof -
    from that have "Fields line ! 3 \<in> set (Fields line)" "Fields line ! 4 \<in> set (Fields line)"
      by simp_all
    then have "CHR '' '' \<notin> set (Fields line ! 3)" "CHR '' '' \<notin> set (Fields line ! 4)"
      by (simp_all only: Fields_no_blank not_False_eq_True)
    then have "arrowed \<lparr>Inode = i, TimeAdded = 0, LastSeen = 0, IsActive = True,
               ConnectionID = Fields line ! 3 @ '' -> '' @ Fields line ! 4\<rparr>"
      unfolding arrowed_def by (intro exI [of _ "Fields line ! 3"] exI [of _ "Fields line ! 4"]) simp
    with Cons.prems show ?thesis by simp
  qed
  show ?case
    using Cons.IH [OF Cons.prems] Cons.IH [OF new] by (simp add: Let_def)
qed

lemma scanLines_active:
  "\<forall>c \<in> set acc. IsActive c \<Longrightarrow> \<forall>c \<in> set (scanLines ls acc). IsActive c"
proof (induction ls arbitrary: acc)
  case Nil
  then show ?case by simp
next
  case (Cons line ls)
  have new: "\<forall>c \<in> set (acc @ [\<lparr>Inode = i, TimeAdded = 0, LastSeen = 0, IsActive = True,
               ConnectionID = d\<rparr>]). IsActive c" for i d
    using Cons.prems by simp
  show ?case
    using Cons.IH [OF Cons.prems] Cons.IH [OF new] by (simp add: Let_def)
qed

lemma find_SomeD: "find P xs = Some x \<Longrightarrow> P x \<and> x \<in> set xs"
  by (induction xs) (auto split: if_splits)

lemma find_Inode:
  "inode \<in> Inode ` set cs \<Longrightarrow> \<exists>c. find (\<lambda>c. Inode c = inode) cs = Some c \<and> c \<in> set cs \<and> Inode c = inode"
  by (induction cs) auto

subsection \<open>The merge\<close>

lemma markAllInactive_lookup:
  "markAllInactive connections inode =
     map_option (\<lambda>conn. conn\<lparr>IsActive := False\<rparr>) (connections inode)"
  by (simp add: markAllInactive_def)

lemma mergeSnapshot_other:
  "inode \<notin> Inode ` set cs \<Longrightarrow> mergeSnapshot now cs connections inode = connections inode"
  by (induction cs arbitrary: connections) (auto split: option.splits)

lemma mergeSnapshot_tracked:
  "connections inode = Some connInfo \<Longrightarrow> inode \<in> Inode ` set cs \<Longrightarrow>
   mergeSnapshot now cs connections inode = Some (connInfo\<lparr>LastSeen := now, IsActive := True\<rparr>)"
proof (induction cs arbitrary: connections connInfo)
  case Nil
  then show ?case by simp
next
  case (Cons c cs)
  show ?case
  proof (cases "Inode c = inode")
    case True
    let ?m = "connections(inode \<mapsto> connInfo\<lparr>LastSeen := now, IsActive := True\<rparr>)"
    have step: "mergeSnapshot now (c # cs) connections = mergeSnapshot now cs ?m"
      using True Cons.prems(1) by simp
    show ?thesis
    proof (cases "inode \<in> Inode ` set cs")
      case True
      have "mergeSnapshot now cs ?m inode =
              Some (connInfo\<lparr>LastSeen := now, IsActive := True\<rparr>\<lparr>LastSeen := now, IsActive := True\<rparr>)"
        by (rule Cons.IH) (simp_all add: True)
      then show ?thesis unfolding step by simp
    next
      case False
      then show ?thesis unfolding step by (simp add: mergeSnapshot_other)
    qed
  next
    case False
    with Cons.prems(2) have in_rest: "inode \<in> Inode ` set cs" by auto
    from False have other: "(connections(Inode c \<mapsto> x)) inode = Some connInfo" for x
      using Cons.prems(1) by simp
    have "mergeSnapshot now cs (connections(Inode c \<mapsto> x)) inode =
            Some (connInfo\<lparr>LastSeen := now, IsActive := True\<rparr>)" for x
      using other in_rest by (rule Cons.IH)
    then show ?thesis
      by (simp split: option.splits)
  qed
qed

text \<open>
  An identifier that is not tracked yet enters the table with the first record of the
  snapshot that carries it; further records with the same identifier find it tracked.
\<close>

lemma mergeSnapshot_new:
  "connections inode = None \<Longrightarrow> find (\<lambda>c. Inode c = inode) cs = Some c \<Longrightarrow>
   mergeSnapshot now cs connections inode = Some (c\<lparr>TimeAdded := now, LastSeen := now\<rparr>) \<or>
   mergeSnapshot now cs connections inode =
     Some (c\<lparr>TimeAdded := now, LastSeen := now, IsActive := True\<rparr>)"
proof (induction cs arbitrary: connections)
  case Nil
  then show ?case by simp
next
  case (Cons d cs)
  show ?case
  proof (cases "Inode d = inode")
    case True
    with Cons.prems(2) have "d = c" by simp
    let ?m = "connections(inode \<mapsto> c\<lparr>TimeAdded := now, LastSeen := now\<rparr>)"
    have step: "mergeSnapshot now (d # cs) connections = mergeSnapshot now cs ?m"
      using True Cons.prems(1) \<open>d = c\<close> by simp
    show ?thesis
    proof (cases "inode \<in> Inode ` set cs")
      case True
      have "mergeSnapshot now cs ?m inode =
              Some (c\<lparr>TimeAdded := now, LastSeen := now\<rparr>\<lparr>LastSeen := now, IsActive := True\<rparr>)"
        by (rule mergeSnapshot_tracked) (simp_all add: True)
      then show ?thesis unfolding step by simp
    next
      case False
      then show ?thesis unfolding step by (simp add: mergeSnapshot_other)
    qed
  next
    case False
    then have "(connections(Inode d \<mapsto> x)) inode = None" for x
      using Cons.prems(1) by simp
    moreover from False Cons.prems(2) have "find (\<lambda>c. Inode c = inode) cs = Some c"
      by simp
    ultimately have
      "mergeSnapshot now cs (connections(Inode d \<mapsto> x)) inode =
         Some (c\<lparr>TimeAdded := now, LastSeen := now\<rparr>) \<or>
       mergeSnapshot now cs (connections(Inode d \<mapsto> x)) inode =
         Some (c\<lparr>TimeAdded := now, LastSeen := now, IsActive := True\<rparr>)" for x
      by (rule Cons.IH)
    then show ?thesis
      by (simp split: option.splits)
  qed
qed

text \<open>Where an entry of the merged table comes from.\<close>

lemma merged_entry:
  assumes "mergeSnapshot now cs (markAllInactive connections) inode = Some conn"
  shows "(\<exists>old. connections inode = Some old \<and> inode \<notin> Inode ` set cs \<and>
            conn = old\<lparr>IsActive := False\<rparr>) \<or>
         (\<exists>old. connections inode = Some old \<and> inode \<in> Inode ` set cs \<and>
            conn = old\<lparr>LastSeen := now, IsActive := True\<rparr>) \<or>
         (\<exists>c. connections inode = None \<and> find (\<lambda>c. Inode c = inode) cs = Some c \<and>
            (conn = c\<lparr>TimeAdded := now, LastSeen := now\<rparr> \<or>
             conn = c\<lparr>TimeAdded := now, LastSeen := now, IsActive := True\<rparr>))"
proof (cases "inode \<in> Inode ` set cs")
  case False
  with assms have "markAllInactive connections inode = Some conn"
    by (simp add: mergeSnapshot_other)
  with False show ?thesis
    by (auto simp: markAllInactive_lookup)
next
  case True
  show ?thesis
  proof (cases "connections inode")
    case None
    from True obtain c where c: "find (\<lambda>c. Inode c = inode) cs = Some c"
      using find_Inode by blast
    have "markAllInactive connections inode = None"
      using None by (simp add: markAllInactive_lookup)
    then have "mergeSnapshot now cs (markAllInactive connections) inode =
                 Some (c\<lparr>TimeAdded := now, LastSeen := now\<rparr>) \<or>
               mergeSnapshot now cs (markAllInactive connections) inode =
                 Some (c\<lparr>TimeAdded := now, LastSeen := now, IsActive := True\<rparr>)"
      using c by (rule mergeSnapshot_new)
    with assms None c show ?thesis
      by auto
  next
    case (Some old)
    then have "markAllInactive connections inode = Some (old\<lparr>IsActive := False\<rparr>)"
      by (simp add: markAllInactive_lookup)
    then have "mergeSnapshot now cs (markAllInactive connections) inode =
                 Some (old\<lparr>IsActive := False\<rparr>\<lparr>LastSeen := now, IsActive := True\<rparr>)"
      using True by (rule mergeSnapshot_tracked)
    with assms Some True show ?thesis
      by auto
  qed
qed

lemma merged_present:
  assumes "inode \<in> Inode ` set cs"
  shows "\<exists>conn. mergeSnapshot now cs connections inode = Some conn"
proof (cases "connections inode")
  case None
  from assms obtain d where "find (\<lambda>c. Inode c = inode) cs = Some d"
    using find_Inode by blast
  with None have "mergeSnapshot now cs connections inode =
                    Some (d\<lparr>TimeAdded := now, LastSeen := now\<rparr>) \<or>
                  mergeSnapshot now cs connections inode =
                    Some (d\<lparr>TimeAdded := now, LastSeen := now, IsActive := True\<rparr>)"
    by (rule mergeSnapshot_new)
  then show ?thesis by blast
next
  case (Some old)
  then have "mergeSnapshot now cs connections inode =
               Some (old\<lparr>LastSeen := now, IsActive := True\<rparr>)"
    using assms by (rule mergeSnapshot_tracked)
  then show ?thesis by blast
qed

lemma markAllInactive_empty: "markAllInactive Map.empty = Map.empty"
  by (simp add: markAllInactive_def)


subsection \<open>The loop over the table\<close>

lemma processEntries_lookup:
  "fst (processEntries cfg run_kill now ks (connections, trace)) inode =
     (if inode \<in> set ks \<and>
         (\<exists>conn. connections inode = Some conn \<and> (killRule cfg now conn \<or> expiryRule cfg now conn))
      then None else connections inode)"
proof (induction ks arbitrary: connections trace)
  case Nil
  show ?case by simp
next
  case (Cons k ks)
  show ?case
  proof (cases "connections k")
    case None
    then show ?thesis using Cons.IH by auto
  next
    case (Some conn)
    then show ?thesis using Cons.IH by (cases "k = inode") auto
  qed
qed

lemma processEntries_kept:
  "fst (processEntries cfg run_kill now ks (connections, trace)) inode = Some conn \<Longrightarrow>
   connections inode = Some conn"
  by (simp add: processEntries_lookup split: if_splits)

lemma killConnection_cong:
  "connections inode = connections' inode \<Longrightarrow>
   killConnection run_kill connections inode = killConnection run_kill connections' inode"
  by (simp add: killConnection_def)


lemma processEntries_events:
  "(inode, r) \<in> set (snd (processEntries cfg run_kill now ks (connections, trace))) \<Longrightarrow>
   (inode, r) \<in> set trace \<or>
   (\<exists>conn. connections inode = Some conn \<and> killRule cfg now conn \<and>
           r = killConnection run_kill connections inode)"
proof (induction ks arbitrary: connections trace)
  case Nil
  then show ?case by simp
next
  case (Cons k ks)
  show ?case
  proof (cases "connections k")
    case None
    then show ?thesis using Cons.prems Cons.IH by simp
  next
    case (Some conn)
    have del: "(inode, r) \<in> set tr \<or>
        (\<exists>conn. connections inode = Some conn \<and> killRule cfg now conn \<and>
                r = killConnection run_kill connections inode)"
      if "(inode, r) \<in> set (snd (processEntries cfg run_kill now ks (connections(k := None), tr)))"
      for tr
    proof -
      from Cons.IH [OF that] show ?thesis
      proof
        assume "(inode, r) \<in> set tr"
        then show ?thesis ..
      next
        assume "\<exists>conn. (connections(k := None)) inode = Some conn \<and> killRule cfg now conn \<and>
                  r = killConnection run_kill (connections(k := None)) inode"
        then obtain c where c: "(connections(k := None)) inode = Some c" "killRule cfg now c"
          "r = killConnection run_kill (connections(k := None)) inode" by blast
        then have ne: "inode \<noteq> k" by auto
        then have "killConnection run_kill (connections(k := None)) inode =
                     killConnection run_kill connections inode"
          by (intro killConnection_cong) simp
        with c ne show ?thesis by auto
      qed
    qed
    show ?thesis
    proof (cases "killRule cfg now conn")
      case True
      with Some Cons.prems
      have "(inode, r) \<in> set (snd (processEntries cfg run_kill now ks
               (connections(k := None), trace @ [(k, killConnection run_kill connections k)])))"
        by simp
      from del [OF this] Some True show ?thesis by auto
    next
      case False
      show ?thesis
      proof (cases "expiryRule cfg now conn")
        case True
        with Some False Cons.prems
        have "(inode, r) \<in> set (snd (processEntries cfg run_kill now ks
                 (connections(k := None), trace)))"
          by simp
        from del [OF this] show ?thesis .
      next
        case nexp: False
        with Some False Cons.prems Cons.IH show ?thesis by simp
      qed
    qed
  qed
qed



subsection \<open>Invariants of the table\<close>

lemma reachable_entry:
  "reachable cfg t connections \<Longrightarrow> connections inode = Some conn \<Longrightarrow>
   Inode conn = inode \<and> TimeAdded conn \<le> LastSeen conn \<and> LastSeen conn \<le> t \<and> arrowed conn"
proof (induction arbitrary: inode conn rule: reachable.induct)
  case (start t)
  then show ?case by simp
next
  case (cycle t connections env)
  show ?case
  proof (cases "listCurrentConnections (ss_list env)")
    case (Inl err)
    with cycle.prems have "connections inode = Some conn"
      by (simp add: monitorConnections_def)
    from cycle.IH [OF this] cycle.hyps(2) show ?thesis by simp
  next
    case (Inr cs)
    then obtain ls where cs: "cs = scanLines ls []"
      by (auto simp: listCurrentConnections_def split: ss_run.splits)
    have arr: "\<forall>c \<in> set cs. arrowed c"
      unfolding cs by (rule scanLines_arrowed) simp
    from Inr cycle.prems
    have "mergeSnapshot (clock env) cs (markAllInactive connections) inode = Some conn"
      by (auto simp: monitorConnections_def reconcile_def Let_def dest: processEntries_kept)
    from merged_entry [OF this] consider
        (absent) old where "connections inode = Some old" "conn = old\<lparr>IsActive := False\<rparr>"
      | (seen) old where "connections inode = Some old"
          "conn = old\<lparr>LastSeen := clock env, IsActive := True\<rparr>"
      | (new) c where "find (\<lambda>c. Inode c = inode) cs = Some c"
          "conn = c\<lparr>TimeAdded := clock env, LastSeen := clock env\<rparr> \<or>
           conn = c\<lparr>TimeAdded := clock env, LastSeen := clock env, IsActive := True\<rparr>"
      by blast
    then show ?thesis
    proof cases
      case absent
      with cycle.IH [of inode old] cycle.hyps(2) show ?thesis
        by (simp add: arrowed_update)
    next
      case seen
      with cycle.IH [of inode old] cycle.hyps(2) show ?thesis
        by (simp add: arrowed_update)
    next
      case new
      moreover from find_SomeD [OF new(1)] arr have "Inode c = inode" "arrowed c" by auto
      ultimately show ?thesis
        by (auto simp: arrowed_update)
    qed
  qed
qed

lemma merged_arrowed:
  assumes "reachable cfg t connections" and "\<forall>c \<in> set cs. arrowed c"
    and "mergeSnapshot now cs (markAllInactive connections) inode = Some conn"
  shows "arrowed conn"
proof -
  from merged_entry [OF assms(3)] consider
      (old) old where "connections inode = Some old" "ConnectionID conn = ConnectionID old"
    | (new) c where "find (\<lambda>c. Inode c = inode) cs = Some c" "ConnectionID conn = ConnectionID c"
    by force
  then show ?thesis
  proof cases
    case old
    from reachable_entry [OF assms(1) old(1)] have "arrowed old" by simp
    with old(2) show ?thesis by (simp add: arrowed_def)
  next
    case new
    from find_SomeD [OF new(1)] assms(2) have "arrowed c" by simp
    with new(2) show ?thesis by (simp add: arrowed_def)
  qed
qed

subsection \<open>The sample data\<close>

lemmas string_library =
  Fields_def spaceWidth_def asciiSpace_def unicodeSpaces_def flush_def matchHere_def
  isDigit_def Let_def

lemma scan_lineA:
  "scanLines (lineA # rest) acc =
     scanLines rest (acc @ [\<lparr>Inode = ''48213'', TimeAdded = 0, LastSeen = 0, IsActive = True,
       ConnectionID = ''10.0.0.5:50090 -> 10.0.0.9:41234''\<rparr>])"
  by (simp add: lineA_def string_library)

lemma scan_lineB:
  "scanLines (lineB # rest) acc =
     scanLines rest (acc @ [\<lparr>Inode = ''48377'', TimeAdded = 0, LastSeen = 0, IsActive = True,
       ConnectionID = ''10.0.0.5:50090 -> 10.0.0.7:38002''\<rparr>])"
  by (simp add: lineB_def string_library)

lemma scan_lineDup:
  "scanLines (lineDup # rest) acc =
     scanLines rest (acc @ [\<lparr>Inode = ''48213'', TimeAdded = 0, LastSeen = 0, IsActive = True,
       ConnectionID = ''10.0.0.5:50090 -> 10.0.0.9:5555''\<rparr>])"
  by (simp add: lineDup_def string_library)

lemma find_lineNoInode: "FindStringSubmatch lineNoInode = []"
  by (simp add: lineNoInode_def string_library)

lemma find_lineShort: "FindStringSubmatch lineShort = [''ino:48500'', ''48500'']"
  by (simp add: lineShort_def string_library)

lemma fields_lineShort: "Fields lineShort = [''ESTAB'', ''10.0.0.5:50090'', ''ino:48500'']"
  by (simp add: lineShort_def string_library)

lemmas scan_samples = scan_lineA scan_lineB scanLines.simps(1)

lemmas durations = killRule_def expiryRule_def wrap64_def Sub_def Minute_def minDuration_def
  maxDuration_def defaults_def Let_def

lemmas cycle_defs = monitorConnections_def listCurrentConnections_def reconcile_def envAt_def
  markAllInactive_lookup

lemma first_cycle_table: "fst (monitorConnections defaults envFirst Map.empty) = tableA"
  by (simp del: scanLines.simps add: monitorConnections_def listCurrentConnections_def
      reconcile_def envFirst_def envAt_def scan_samples markAllInactive_empty durations tableA_def
      entryA_def)

lemma tableA_reachable: "reachable defaults 0 tableA"
proof -
  have "reachable defaults (clock envFirst) (fst (monitorConnections defaults envFirst Map.empty))"
    by (rule reachable.cycle [OF reachable.start [of defaults 0]])
      (simp add: envFirst_def envAt_def)
  then show ?thesis
    by (simp add: first_cycle_table) (simp add: envFirst_def envAt_def)
qed

lemmas scenario = reconcile_def markAllInactive_lookup recAbc_def recXyz_def durations

lemma after0:
  "fst run0 ''abc'' = Some recAbc" "fst run0 ''xyz'' = Some recXyz" "snd run0 = []"
  by (simp_all add: run0_def scenario)

lemma after30:
  "fst run30 ''abc'' = Some (recAbc\<lparr>LastSeen := 30 * Minute\<rparr>)"
  "fst run30 ''xyz'' = Some (recXyz\<lparr>IsActive := False\<rparr>)" "snd run30 = []"
  by (simp_all add: run30_def after0 scenario)

lemma after60:
  "fst run60 ''abc'' = Some (recAbc\<lparr>LastSeen := 60 * Minute\<rparr>)"
  "fst run60 ''xyz'' = Some (recXyz\<lparr>IsActive := False\<rparr>)" "snd run60 = []"
  by (simp_all add: run60_def after30 scenario)

lemma after90:
  "fst run90 ''abc'' = Some (recAbc\<lparr>LastSeen := 90 * Minute\<rparr>)"
  "fst run90 ''xyz'' = None" "snd run90 = []"
  by (simp_all add: run90_def after60 scenario)

lemma after120:
  "fst run120 ''abc'' = Some (recAbc\<lparr>LastSeen := 120 * Minute\<rparr>)" "snd run120 = []"
  by (simp_all add: run120_def after90 scenario)

lemma after150:
  "fst run150 ''abc'' = None" "snd run150 = [(''abc'', None)]"
  by (simp_all add: run150_def after120 scenario killConnection_def Split.simps killSucceeds_def)

section \<open>The properties of the specification\<close>

text \<open>
  C1, as the code has it. Maximal active duration 120 minutes, maximal inactive duration 60
  minutes, one cycle every 30 minutes, the clock reading exactly 0, 30, 60, ... minutes.
  The identifier \<open>abc\<close>, first seen at 0 and in every snapshot, is still tracked after the
  cycle at 120 minutes, where its age is 120 minutes and not more; the cycle at 150 minutes
  kills it and removes it. The identifier \<open>xyz\<close>, seen at 0 only, is kept inactive at 30
  and at 60 minutes and removed, without a kill, at 90.
\<close>

theorem default_scenario:
  "fst run0 ''abc'' = Some recAbc \<and> fst run0 ''xyz'' = Some recXyz \<and>
   fst run30 ''xyz'' = Some (recXyz\<lparr>IsActive := False\<rparr>) \<and>
   fst run60 ''xyz'' = Some (recXyz\<lparr>IsActive := False\<rparr>) \<and>
   fst run90 ''xyz'' = None \<and> snd run90 = [] \<and>
   fst run90 ''abc'' = Some (recAbc\<lparr>LastSeen := 90 * Minute\<rparr>) \<and>
   fst run120 ''abc'' = Some (recAbc\<lparr>LastSeen := 120 * Minute\<rparr>) \<and> snd run120 = [] \<and>
   fst run150 ''abc'' = None \<and> snd run150 = [(''abc'', None)]"
  by (simp only: after0 after30 after60 after90 after120 after150 simp_thms)

text \<open>
  The cycle at 120 minutes does not kill \<open>abc\<close>: \<open>now - TimeAdded\<close> equals the maximal
  active duration, and the rule of line 136 asks for more.
\<close>

theorem killed_at_120_counterexample:
  "Sub (120 * Minute) (TimeAdded recAbc) = wrap64 (maxActiveDurMin defaults * Minute) \<and>
   fst run120 ''abc'' = Some (recAbc\<lparr>LastSeen := 120 * Minute\<rparr>) \<and> snd run120 = []"
  by (simp add: after120) (simp add: recAbc_def durations)



text \<open>
  C3. Take a table the program can hold and merge a snapshot into it at a time \<open>now\<close> not
  before the last clock reading. Every entry of the merged table has
  \<open>TimeAdded \<le> LastSeen\<close>: an entry that was not tracked has both equal to \<open>now\<close>, and
  an entry that was tracked keeps its \<open>TimeAdded\<close>, while its \<open>LastSeen\<close> stays or moves
  forward to \<open>now\<close>.
\<close>

theorem first_seen_before_last_seen:
  assumes "reachable cfg t connections" and "t \<le> now"
    and "mergeSnapshot now cs (markAllInactive connections) inode = Some conn"
  shows "TimeAdded conn \<le> LastSeen conn \<and>
         (connections inode = None \<longrightarrow> TimeAdded conn = now \<and> LastSeen conn = now) \<and>
         (\<forall>old. connections inode = Some old \<longrightarrow>
            TimeAdded conn = TimeAdded old \<and> LastSeen old \<le> LastSeen conn \<and>
            (inode \<in> Inode ` set cs \<longrightarrow> LastSeen conn = now) \<and>
            (inode \<notin> Inode ` set cs \<longrightarrow> LastSeen conn = LastSeen old))"
proof -
  from merged_entry [OF assms(3)] consider
      (absent) old where "connections inode = Some old" "inode \<notin> Inode ` set cs"
        "conn = old\<lparr>IsActive := False\<rparr>"
    | (seen) old where "connections inode = Some old" "inode \<in> Inode ` set cs"
        "conn = old\<lparr>LastSeen := now, IsActive := True\<rparr>"
    | (new) c where "connections inode = None"
        "conn = c\<lparr>TimeAdded := now, LastSeen := now\<rparr> \<or>
         conn = c\<lparr>TimeAdded := now, LastSeen := now, IsActive := True\<rparr>"
    by blast
  then show ?thesis
  proof cases
    case absent
    with reachable_entry [OF assms(1) absent(1)] show ?thesis by simp
  next
    case seen
    with reachable_entry [OF assms(1) seen(1)] assms(2) show ?thesis by simp
  next
    case new
    then show ?thesis by auto
  qed
qed

theorem first_seen_before_last_seen_witness:
  "reachable defaults 0 tableA \<and> (0::int) \<le> 30 * Minute \<and>
   mergeSnapshot (30 * Minute) (scanLines [lineA, lineB] []) (markAllInactive tableA) ''48213'' =
     Some (entryA\<lparr>LastSeen := 30 * Minute\<rparr>) \<and>
   TimeAdded (entryA\<lparr>LastSeen := 30 * Minute\<rparr>) \<le> LastSeen (entryA\<lparr>LastSeen := 30 * Minute\<rparr>) \<and>
   TimeAdded (entryA\<lparr>LastSeen := 30 * Minute\<rparr>) = TimeAdded entryA \<and>
   LastSeen entryA \<le> LastSeen (entryA\<lparr>LastSeen := 30 * Minute\<rparr>)"
proof -
  have h1: "reachable defaults 0 tableA"
    by (rule tableA_reachable)
  have h2: "(0::int) \<le> 30 * Minute"
    by (simp add: Minute_def)
  have h3: "mergeSnapshot (30 * Minute) (scanLines [lineA, lineB] []) (markAllInactive tableA)
              ''48213'' = Some (entryA\<lparr>LastSeen := 30 * Minute\<rparr>)"
    by (simp del: scanLines.simps add: scan_samples tableA_def entryA_def markAllInactive_lookup)
  have tracked: "tableA ''48213'' = Some entryA"
    by (simp add: tableA_def)
  show ?thesis
    using h1 h2 h3 tracked first_seen_before_last_seen [OF h1 h2 h3]
    by blast
qed

text \<open>
  C4. After a cycle whose snapshot was read, an entry of the table is active if and only
  if its identifier is that of a record of the cycle's snapshot.
\<close>

theorem active_iff_in_snapshot:
  assumes "ss_list env = Lines ls"
    and "fst (monitorConnections cfg env connections) inode = Some conn"
  shows "IsActive conn \<longleftrightarrow> inode \<in> Inode ` set (scanLines ls [])"
proof -
  let ?cs = "scanLines ls []"
  have active: "\<forall>c \<in> set ?cs. IsActive c"
    by (rule scanLines_active) simp
  from assms have "mergeSnapshot (clock env) ?cs (markAllInactive connections) inode = Some conn"
    by (auto simp: monitorConnections_def listCurrentConnections_def reconcile_def
        dest: processEntries_kept)
  from merged_entry [OF this] consider
      (absent) old where "inode \<notin> Inode ` set ?cs" "conn = old\<lparr>IsActive := False\<rparr>"
    | (seen) old where "inode \<in> Inode ` set ?cs"
        "conn = old\<lparr>LastSeen := clock env, IsActive := True\<rparr>"
    | (new) c where "find (\<lambda>c. Inode c = inode) ?cs = Some c"
        "conn = c\<lparr>TimeAdded := clock env, LastSeen := clock env\<rparr> \<or>
         conn = c\<lparr>TimeAdded := clock env, LastSeen := clock env, IsActive := True\<rparr>"
    by blast
  then show ?thesis
  proof cases
    case absent
    then show ?thesis by simp
  next
    case seen
    then show ?thesis by simp
  next
    case new
    from find_SomeD [OF new(1)] have "Inode c = inode" "c \<in> set ?cs" by simp_all
    with active new(2) show ?thesis by force
  qed
qed

theorem active_iff_in_snapshot_witness:
  "ss_list envNext = Lines [lineB] \<and>
   fst (monitorConnections defaults envNext tableA) ''48213'' = Some (entryA\<lparr>IsActive := False\<rparr>) \<and>
   (IsActive (entryA\<lparr>IsActive := False\<rparr>) \<longleftrightarrow> ''48213'' \<in> Inode ` set (scanLines [lineB] []))"
proof -
  have h1: "ss_list envNext = Lines [lineB]"
    by (simp add: envNext_def envAt_def)
  have h2: "fst (monitorConnections defaults envNext tableA) ''48213'' =
              Some (entryA\<lparr>IsActive := False\<rparr>)"
    by (simp del: scanLines.simps add: envNext_def cycle_defs scan_samples tableA_def entryA_def
        durations)
  show ?thesis
    using h1 h2 active_iff_in_snapshot [OF h1 h2]
    by blast
qed

text \<open>
  C5, as the code has it. Let an identifier be in the snapshots of two cycles that follow
  each other. After the merge of the second cycle the table has an entry for it and under
  no other key an entry with this identifier, and its \<open>LastSeen\<close> is the \<open>now\<close> of the
  second cycle. If the entry was still tracked after the first cycle, its \<open>TimeAdded\<close> is
  the one it had then. If the first cycle ended without an entry for it, one of the two
  rules has removed it in that cycle, and the second cycle tracks the identifier anew, with
  \<open>TimeAdded\<close> equal to its \<open>now\<close>.
\<close>

theorem seen_twice_refreshed:
  assumes "reachable cfg t connections" and "t \<le> clock env1"
    and "ss_list env1 = Lines ls1" and "inode \<in> Inode ` set (scanLines ls1 [])"
    and "inode \<in> Inode ` set (scanLines ls2 [])"
    and "connections1 = fst (monitorConnections cfg env1 connections)"
    and "merged2 = mergeSnapshot now2 (scanLines ls2 []) (markAllInactive connections1)"
  shows "\<exists>conn. merged2 inode = Some conn \<and>
           (\<forall>k c. merged2 k = Some c \<and> Inode c = inode \<longrightarrow> k = inode) \<and>
           LastSeen conn = now2 \<and>
           (\<forall>old. connections1 inode = Some old \<longrightarrow> TimeAdded conn = TimeAdded old) \<and>
           (connections1 inode = None \<longrightarrow>
              TimeAdded conn = now2 \<and>
              (\<exists>c1. mergeSnapshot (clock env1) (scanLines ls1 []) (markAllInactive connections)
                      inode = Some c1 \<and>
                    (killRule cfg (clock env1) c1 \<or> expiryRule cfg (clock env1) c1)))"
proof -
  let ?merged1 = "mergeSnapshot (clock env1) (scanLines ls1 []) (markAllInactive connections)"
  have evicted: "\<exists>c1. ?merged1 inode = Some c1 \<and>
                   (killRule cfg (clock env1) c1 \<or> expiryRule cfg (clock env1) c1)"
    if none: "connections1 inode = None"
  proof -
    from assms(4) obtain c1 where c1: "?merged1 inode = Some c1"
      using merged_present by blast
    have "connections1 inode =
            fst (processEntries cfg (ss_kill env1) (clock env1) (range_order env1) (?merged1, []))
              inode"
      by (simp add: assms(6) assms(3) monitorConnections_def listCurrentConnections_def
          reconcile_def)
    with none c1 show ?thesis
      by (simp add: processEntries_lookup split: if_splits)
  qed
  let ?cs2 = "scanLines ls2 []"
  have r1: "reachable cfg (clock env1) connections1"
    unfolding assms(6) using assms(1,2) by (rule reachable.cycle)
  have keyed: "k = inode" if "merged2 k = Some c" "Inode c = inode" for k c
  proof -
    from that(1) have "mergeSnapshot now2 ?cs2 (markAllInactive connections1) k = Some c"
      by (simp only: assms(7))
    from merged_entry [OF this] consider
        (old) old where "connections1 k = Some old" "Inode c = Inode old"
      | (new) d where "find (\<lambda>c. Inode c = k) ?cs2 = Some d" "Inode c = Inode d"
      by force
    then show ?thesis
    proof cases
      case old
      with reachable_entry [OF r1 old(1)] that(2) show ?thesis by simp
    next
      case new
      with find_SomeD [OF new(1)] that(2) show ?thesis by simp
    qed
  qed
  show ?thesis
  proof (cases "connections1 inode")
    case None
    from assms(5) obtain d where d: "find (\<lambda>c. Inode c = inode) ?cs2 = Some d"
      using find_Inode by blast
    have "markAllInactive connections1 inode = None"
      using None by (simp add: markAllInactive_lookup)
    then have "mergeSnapshot now2 ?cs2 (markAllInactive connections1) inode =
                 Some (d\<lparr>TimeAdded := now2, LastSeen := now2\<rparr>) \<or>
               mergeSnapshot now2 ?cs2 (markAllInactive connections1) inode =
                 Some (d\<lparr>TimeAdded := now2, LastSeen := now2, IsActive := True\<rparr>)"
      using d by (rule mergeSnapshot_new)
    with None keyed evicted [OF None] show ?thesis
      unfolding assms(7) [symmetric] by auto
  next
    case (Some old)
    then have "markAllInactive connections1 inode = Some (old\<lparr>IsActive := False\<rparr>)"
      by (simp add: markAllInactive_lookup)
    then have "mergeSnapshot now2 ?cs2 (markAllInactive connections1) inode =
                 Some (old\<lparr>IsActive := False\<rparr>\<lparr>LastSeen := now2, IsActive := True\<rparr>)"
      using assms(5) by (rule mergeSnapshot_tracked)
    with Some keyed show ?thesis
      unfolding assms(7) [symmetric] by auto
  qed
qed

theorem seen_twice_refreshed_witness:
  "reachable defaults 0 Map.empty \<and> 0 \<le> clock envFirst \<and> ss_list envFirst = Lines [lineA] \<and>
   ''48213'' \<in> Inode ` set (scanLines [lineA] []) \<and>
   ''48213'' \<in> Inode ` set (scanLines [lineB, lineA] []) \<and>
   tableA = fst (monitorConnections defaults envFirst Map.empty) \<and>
   tableA ''48213'' = Some entryA \<and>
   (\<exists>conn. mergeSnapshot (30 * Minute) (scanLines [lineB, lineA] []) (markAllInactive tableA)
             ''48213'' = Some conn \<and>
           LastSeen conn = 30 * Minute \<and> TimeAdded conn = TimeAdded entryA)"
proof -
  have h1: "reachable defaults 0 Map.empty"
    by (rule reachable.start)
  have h2: "0 \<le> clock envFirst" and h3: "ss_list envFirst = Lines [lineA]"
    by (simp_all add: envFirst_def envAt_def)
  have h4: "''48213'' \<in> Inode ` set (scanLines [lineA] [])"
    by (simp del: scanLines.simps add: scan_samples)
  have h5: "''48213'' \<in> Inode ` set (scanLines [lineB, lineA] [])"
    by (simp del: scanLines.simps add: scan_samples)
  have h6: "tableA = fst (monitorConnections defaults envFirst Map.empty)"
    by (simp add: first_cycle_table)
  have tracked: "tableA ''48213'' = Some entryA"
    by (simp add: tableA_def)
  show ?thesis
    using h1 h2 h3 h4 h5 h6 tracked seen_twice_refreshed [OF h1 h2 h3 h4 h5 h6 refl, of "30 * Minute"]
    by blast
qed

text \<open>
  First-seen does not always survive two snapshots in a row: inode 48213, tracked since 0,
  is in the snapshot of the cycle at 121 minutes, which kills and removes it (the kill
  failing), and in the next snapshot at 151 minutes, whose merge stores it with
  \<open>TimeAdded\<close> at 151 minutes.
\<close>

theorem first_seen_unchanged_counterexample:
  "''48213'' \<in> Inode ` set (scanLines [lineA] []) \<and>
   map_option TimeAdded
     (mergeSnapshot (clock envKill) (scanLines [lineA] []) (markAllInactive tableA) ''48213'') =
     Some 0 \<and>
   fst (monitorConnections defaults (envKill\<lparr>ss_kill := killFails\<rparr>) tableA) ''48213'' = None \<and>
   map_option TimeAdded
     (mergeSnapshot (151 * Minute) (scanLines [lineA] [])
        (markAllInactive (fst (monitorConnections defaults (envKill\<lparr>ss_kill := killFails\<rparr>) tableA)))
        ''48213'') = Some (151 * Minute) \<and>
   151 * Minute \<noteq> (0::int)"
proof -
  have seen: "''48213'' \<in> Inode ` set (scanLines [lineA] [])"
    by (simp del: scanLines.simps add: scan_samples)
  have first: "map_option TimeAdded
     (mergeSnapshot (clock envKill) (scanLines [lineA] []) (markAllInactive tableA) ''48213'') =
     Some 0"
    by (simp del: scanLines.simps add: envKill_def envAt_def scan_samples tableA_def entryA_def
        markAllInactive_lookup)
  have evicted:
    "fst (monitorConnections defaults (envKill\<lparr>ss_kill := killFails\<rparr>) tableA) ''48213'' = None"
    by (simp del: scanLines.simps add: envKill_def cycle_defs scan_samples tableA_def entryA_def
        durations)
  have anew: "map_option TimeAdded
     (mergeSnapshot (151 * Minute) (scanLines [lineA] [])
        (markAllInactive (fst (monitorConnections defaults (envKill\<lparr>ss_kill := killFails\<rparr>) tableA)))
        ''48213'') = Some (151 * Minute)"
    by (simp del: scanLines.simps add: scan_samples markAllInactive_lookup evicted)
  have "151 * Minute \<noteq> (0::int)"
    by (simp add: Minute_def)
  with seen first evicted anew show ?thesis
    by (simp only: simp_thms)
qed

text \<open>
  C6. When \<^verbatim>\<open>listCurrentConnections\<close> returns an error the cycle ends at once: the table
  is the one the cycle started with, entry by entry and field by field, and nothing is
  killed.
\<close>

theorem failed_snapshot_keeps_table:
  assumes "listCurrentConnections (ss_list env) = Inl err"
  shows "monitorConnections cfg env connections = (connections, [])"
  using assms by (simp add: monitorConnections_def)

theorem failed_snapshot_keeps_table_witness:
  "listCurrentConnections
     (ss_list \<lparr>ss_list = StartFails, clock = 5400000000000, range_order = [''48213''],
               ss_kill = killSucceeds\<rparr>) = Inl StartError \<and>
   monitorConnections defaults
     \<lparr>ss_list = StartFails, clock = 5400000000000, range_order = [''48213''],
      ss_kill = killSucceeds\<rparr>
     [''48213'' \<mapsto> entryA] = ([''48213'' \<mapsto> entryA], [])"
proof -
  have h: "listCurrentConnections
     (ss_list \<lparr>ss_list = StartFails, clock = 5400000000000, range_order = [''48213''],
               ss_kill = killSucceeds\<rparr>) = Inl StartError"
    by (simp add: listCurrentConnections_def)
  show ?thesis
    using h failed_snapshot_keeps_table [OF h, of defaults "[''48213'' \<mapsto> entryA]"]
    by simp
qed

text \<open>
  C7, as the code has it. When several records of a snapshot carry the same identifier, the
  entry of the merged table has the connection ID of the first of them if the identifier
  was not tracked before the cycle, and the connection ID it had if it was: the records
  after the first only refresh \<open>LastSeen\<close> and \<open>IsActive\<close>.
\<close>

theorem first_duplicate_wins:
  assumes "find (\<lambda>c. Inode c = inode) cs = Some first"
  shows "\<exists>conn. mergeSnapshot now cs (markAllInactive connections) inode = Some conn \<and>
           ConnectionID conn =
             (case connections inode of
                None \<Rightarrow> ConnectionID first
              | Some old \<Rightarrow> ConnectionID old)"
proof (cases "connections inode")
  case None
  then have "markAllInactive connections inode = None"
    by (simp add: markAllInactive_lookup)
  then have "mergeSnapshot now cs (markAllInactive connections) inode =
               Some (first\<lparr>TimeAdded := now, LastSeen := now\<rparr>) \<or>
             mergeSnapshot now cs (markAllInactive connections) inode =
               Some (first\<lparr>TimeAdded := now, LastSeen := now, IsActive := True\<rparr>)"
    using assms by (rule mergeSnapshot_new)
  with None show ?thesis by auto
next
  case (Some old)
  from find_SomeD [OF assms] have "inode \<in> Inode ` set cs" by auto
  moreover from Some have "markAllInactive connections inode = Some (old\<lparr>IsActive := False\<rparr>)"
    by (simp add: markAllInactive_lookup)
  ultimately have "mergeSnapshot now cs (markAllInactive connections) inode =
      Some (old\<lparr>IsActive := False\<rparr>\<lparr>LastSeen := now, IsActive := True\<rparr>)"
    by (rule mergeSnapshot_tracked [rotated])
  with Some show ?thesis by simp
qed

theorem first_duplicate_wins_witness:
  "find (\<lambda>c. Inode c = ''48213'') (scanLines [lineA, lineDup] []) =
     Some \<lparr>Inode = ''48213'', TimeAdded = 0, LastSeen = 0, IsActive = True,
           ConnectionID = ''10.0.0.5:50090 -> 10.0.0.9:41234''\<rparr> \<and>
   (\<exists>conn. mergeSnapshot 0 (scanLines [lineA, lineDup] []) (markAllInactive Map.empty) ''48213'' =
             Some conn \<and>
           ConnectionID conn = ''10.0.0.5:50090 -> 10.0.0.9:41234'')"
proof -
  have h: "find (\<lambda>c. Inode c = ''48213'') (scanLines [lineA, lineDup] []) =
     Some \<lparr>Inode = ''48213'', TimeAdded = 0, LastSeen = 0, IsActive = True,
           ConnectionID = ''10.0.0.5:50090 -> 10.0.0.9:41234''\<rparr>"
    by (simp del: scanLines.simps add: scan_samples scan_lineDup)
  show ?thesis
    using h first_duplicate_wins [OF h, of 0 Map.empty]
    by simp
qed

text \<open>
  The last record does not win: of two lines with inode 48213, the entry keeps the peer of
  the first.
\<close>

theorem last_duplicate_wins_counterexample:
  "map Inode (scanLines [lineA, lineDup] []) = [''48213'', ''48213''] \<and>
   map ConnectionID (scanLines [lineA, lineDup] []) =
     [''10.0.0.5:50090 -> 10.0.0.9:41234'', ''10.0.0.5:50090 -> 10.0.0.9:5555''] \<and>
   map_option ConnectionID (fst (monitorConnections defaults envDup Map.empty) ''48213'') =
     Some ''10.0.0.5:50090 -> 10.0.0.9:41234'' \<and>
   map_option ConnectionID (fst (monitorConnections defaults envDup Map.empty) ''48213'') \<noteq>
     Some (ConnectionID (last (scanLines [lineA, lineDup] [])))"
  by (simp del: scanLines.simps add: envDup_def cycle_defs scan_samples scan_lineDup durations)

text \<open>
  C8. A line in which \<^verbatim>\<open>ino:([0-9]+)\<close> does not match yields no record, and the lines
  after it are parsed as if it were not there: the records of the whole input are those
  of the input without the line.
\<close>

theorem line_without_inode_is_skipped:
  assumes "length (FindStringSubmatch line) < 2"
  shows "scanLines [line] [] = [] \<and>
         scanLines (before @ line # after) [] = scanLines (before @ after) [] \<and>
         listCurrentConnections (Lines (before @ line # after)) =
           listCurrentConnections (Lines (before @ after))"
proof -
  have skip: "scanLines (line # rest) acc = scanLines rest acc" for rest acc
    using assms by (rule scanLines_skip [OF disjI1])
  have "scanLines (before @ line # after) [] = scanLines (before @ after) []"
    by (simp only: scanLines_append skip)
  moreover have "scanLines [line] [] = []"
    by (simp only: skip) simp
  ultimately show ?thesis
    by (simp add: listCurrentConnections_def)
qed

theorem line_without_inode_is_skipped_witness:
  "length (FindStringSubmatch lineNoInode) < 2 \<and>
   scanLines [lineNoInode] [] = [] \<and>
   scanLines [lineA, lineNoInode, lineB] [] = scanLines [lineA, lineB] [] \<and>
   listCurrentConnections (Lines [lineA, lineNoInode, lineB]) =
     listCurrentConnections (Lines [lineA, lineB])"
proof -
  have h: "length (FindStringSubmatch lineNoInode) < 2"
    by (simp add: find_lineNoInode)
  show ?thesis
    using h line_without_inode_is_skipped [OF h, of "[lineA]" "[lineB]"]
    by (simp del: scanLines.simps)
qed

text \<open>
  C9. A line in which the pattern matches but which has fewer than five fields yields
  no record either, without a message, and the lines after it are parsed as if it were
  not there.
\<close>

theorem short_line_is_dropped:
  assumes "2 \<le> length (FindStringSubmatch line)" and "length (Fields line) < 5"
  shows "scanLines [line] [] = [] \<and>
         scanLines (before @ line # after) [] = scanLines (before @ after) [] \<and>
         listCurrentConnections (Lines (before @ line # after)) =
           listCurrentConnections (Lines (before @ after))"
proof -
  have skip: "scanLines (line # rest) acc = scanLines rest acc" for rest acc
    using assms(2) by (rule scanLines_skip [OF disjI2])
  have "scanLines (before @ line # after) [] = scanLines (before @ after) []"
    by (simp only: scanLines_append skip)
  moreover have "scanLines [line] [] = []"
    by (simp only: skip) simp
  ultimately show ?thesis
    by (simp add: listCurrentConnections_def)
qed

theorem short_line_is_dropped_witness:
  "2 \<le> length (FindStringSubmatch lineShort) \<and> length (Fields lineShort) < 5 \<and>
   scanLines [lineShort] [] = [] \<and>
   scanLines [lineA, lineShort, lineB] [] = scanLines [lineA, lineB] [] \<and>
   listCurrentConnections (Lines [lineA, lineShort, lineB]) =
     listCurrentConnections (Lines [lineA, lineB])"
proof -
  have h1: "2 \<le> length (FindStringSubmatch lineShort)"
    by (simp add: find_lineShort)
  have h2: "length (Fields lineShort) < 5"
    by (simp add: fields_lineShort)
  show ?thesis
    using h1 h2 short_line_is_dropped [OF h1 h2, of "[lineA]" "[lineB]"]
    by (simp del: scanLines.simps)
qed

text \<open>
  C10. In a cycle that starts from a table the program can hold, no call of
  \<^verbatim>\<open>killConnection\<close> returns through one of its first two error branches: the entry is
  still in the table when the call is made, and its connection ID, built from two fields
  of a line, splits at \<^verbatim>\<open>" -> "\<close> into exactly two parts.
\<close>

theorem kill_errors_unreachable:
  assumes "reachable cfg t connections"
    and "(inode, result) \<in> set (snd (monitorConnections cfg env connections))"
  shows "result \<noteq> Some NotFound \<and> result \<noteq> Some InvalidFormat"
proof (cases "listCurrentConnections (ss_list env)")
  case (Inl err)
  with assms(2) show ?thesis by (simp add: monitorConnections_def)
next
  case (Inr cs)
  then obtain ls where cs: "cs = scanLines ls []"
    by (auto simp: listCurrentConnections_def split: ss_run.splits)
  have arr: "\<forall>c \<in> set cs. arrowed c"
    unfolding cs by (rule scanLines_arrowed) simp
  let ?merged = "mergeSnapshot (clock env) cs (markAllInactive connections)"
  from Inr assms(2)
  have "(inode, result) \<in> set (snd (processEntries cfg (ss_kill env) (clock env) (range_order env)
          (?merged, [])))"
    by (simp add: monitorConnections_def reconcile_def)
  from processEntries_events [OF this] obtain conn where conn: "?merged inode = Some conn"
    and result: "result = killConnection (ss_kill env) ?merged inode"
    by auto
  from assms(1) arr conn have "arrowed conn"
    by (rule merged_arrowed)
  with conn have "killConnection (ss_kill env) ?merged inode = None \<or>
                  killConnection (ss_kill env) ?merged inode = Some CommandFailed"
    by (rule killConnection_arrowed)
  with result show ?thesis by auto
qed

theorem kill_errors_unreachable_witness:
  "reachable defaults 0 tableA \<and>
   (''48213'', Some CommandFailed) \<in>
     set (snd (monitorConnections defaults (envKill\<lparr>ss_kill := killFails\<rparr>) tableA)) \<and>
   Some CommandFailed \<noteq> Some NotFound \<and> Some CommandFailed \<noteq> Some InvalidFormat"
proof -
  have h1: "reachable defaults 0 tableA"
    by (rule tableA_reachable)
  have h2: "(''48213'', Some CommandFailed) \<in>
     set (snd (monitorConnections defaults (envKill\<lparr>ss_kill := killFails\<rparr>) tableA))"
    by (simp del: scanLines.simps add: envKill_def cycle_defs scan_samples tableA_def entryA_def
        durations killConnection_def Split.simps killFails_def)
  show ?thesis
    using h1 h2 kill_errors_unreachable [OF h1 h2]
    by simp
qed

end
